theory Spec2Isabelle
  imports
    Main
    "HOL-Library.Char_ord"
    "HOL-Library.List_Lexorder"
    "HOL-Library.Product_Lexorder"
    "HOL-Library.Multiset"
    "HOL-Library.Sublist"
begin

section \<open>Data model of \<^verbatim>\<open>pretty_readme.py\<close>\<close>

text \<open>
  A Python \<^verbatim>\<open>str\<close> is modelled as a \<^typ>\<open>string\<close> holding its UTF-8 bytes.  The order
  of \<^verbatim>\<open>str\<close> (code point by code point, a proper prefix first) is then the lexicographic
  order of the byte lists, and the pipe character is the single byte \<open>0x7C\<close> in every
  string that contains it.  A \<^verbatim>\<open>dict\<close> keeps its insertion order, which
  \<^verbatim>\<open>keys()\<close> and \<^verbatim>\<open>values()\<close> expose, so it is an association list whose keys
  are pairwise different (\<open>distinct (map fst d)\<close>).
\<close>

type_synonym stage_list = "string list"
type_synonym game_section = "(string \<times> stage_list) list"
type_synonym rank_section = "(string \<times> game_section) list"

datatype error = KeyError string | SystemExit string | ImportError string

definition GAME_ORDER :: "string list" where
  "GAME_ORDER =
    [''7th style'', ''8th style'', ''9th style'', ''10th style'',
     ''11 IIDX RED'', ''12 HAPPY SKY'', ''13 DistorteD'', ''14 GOLD'',
     ''15 DJ TROOPERS'', ''16 EMPRESS'', ''17 SIRIUS'', ''18 Resort Anthem'',
     ''19 Lincle'', ''20 tricoro'', ''21 SPADA'', ''22 PENDUAL'',
     ''23 copula'', ''24 SINOBUZ'', ''25 CANNON BALLERS'', ''26 Rootage'',
     ''26 Rootage (offline)'',
     ''27 HEROIC VERSE'', ''28 BISTROVER'', ''29 CastHour'', ''30 RESIDENT'',
     ''31 EPOLIS'', ''32 Pinky Crush'']"

definition DAN_ORDER :: "string list" where
  "DAN_ORDER =
    [''1st Dan'', ''2nd Dan'', ''3rd Dan'', ''4th Dan'', ''5th Dan'',
     ''6th Dan'', ''7th Dan'', ''8th Dan'', ''9th Dan'', ''10th Dan'',
     ''Chuuden'', ''Kaiden'']"

subsection \<open>Row sorter\<close>

text \<open>
  \<^verbatim>\<open>index = {name: i for i, name in enumerate(GAME_ORDER)}\<close>: the comprehension stores
  the pairs from left to right, a later one replacing an earlier one with the same name.
\<close>

definition index_of_names :: "nat \<Rightarrow> string list \<Rightarrow> (string \<rightharpoonup> int) \<Rightarrow> (string \<rightharpoonup> int)" where
  "index_of_names n names m = fold (\<lambda>(i, name) m. m(name \<mapsto> int i)) (enumerate n names) m"

definition game_index :: "string \<rightharpoonup> int" where
  "game_index = index_of_names 0 GAME_ORDER Map.empty"

text \<open>The sort key \<^verbatim>\<open>lambda k: (index.get(k, 10_000), k)\<close>.\<close>

definition game_key :: "string \<Rightarrow> int \<times> string" where
  "game_key k = (case game_index k of Some i \<Rightarrow> i | None \<Rightarrow> 10000, k)"

text \<open>
  \<^verbatim>\<open>sorted(keys, key=...)\<close> is a stable sort by the key; tuples compare lexicographically.
  \<^const>\<open>sort_key\<close> is the stable insertion sort of the library, and a stable sort has only
  one possible result.
\<close>

definition order_games :: "string list \<Rightarrow> string list" where
  "order_games keys = sort_key game_key keys"

subsection \<open>Strings\<close>

definition newline :: string where
  "newline = [CHR 0x0A]"

definition backslash :: char where
  "backslash = CHR 0x5C"

text \<open>\<^verbatim>\<open>sep.join(xs)\<close>\<close>

fun join :: "string \<Rightarrow> string list \<Rightarrow> string" where
  "join sep [] = []"
| "join sep [x] = x"
| "join sep (x # y # ys) = x @ sep @ join sep (y # ys)"

text \<open>\<^verbatim>\<open>cell.replace("|", r"\|")\<close>: every pipe becomes a backslash and a pipe.\<close>

definition replace_pipe :: "string \<Rightarrow> string" where
  "replace_pipe cell = concat (map (\<lambda>c. if c = CHR ''|'' then [backslash, CHR ''|''] else [c]) cell)"

text \<open>The decimal numeral that an f-string writes for an \<^verbatim>\<open>int\<close>.\<close>

definition digit_char :: "nat \<Rightarrow> char" where
  "digit_char d = ''0123456789'' ! d"

fun str_nat :: "nat \<Rightarrow> string" where
  "str_nat n = (if n < 10 then [digit_char n] else str_nat (n div 10) @ [digit_char (n mod 10)])"

declare str_nat.simps [simp del]

definition str_int :: "int \<Rightarrow> string" where
  "str_int i = (if i < 0 then CHR ''-'' # str_nat (nat (- i)) else str_nat (nat i))"

subsection \<open>Rank table renderer\<close>

text \<open>\<^verbatim>\<open>d[k]\<close> raises \<^verbatim>\<open>KeyError\<close> on a key that the dictionary does not hold.\<close>

definition getitem :: "(string \<times> 'v) list \<Rightarrow> string \<Rightarrow> error + 'v" where
  "getitem d k = (case map_of d k of None \<Rightarrow> Inl (KeyError k) | Some v \<Rightarrow> Inr v)"

text \<open>
  \<^verbatim>\<open>m = 0; for stages in section.values(): m = max(m, len(stages))\<close>
\<close>

definition max_stage_len :: "game_section \<Rightarrow> int" where
  "max_stage_len section = fold (\<lambda>stages m. max m (int (length stages))) (map snd section) 0"

text \<open>\<^verbatim>\<open>"| " + " | ".join(cells) + " |"\<close>\<close>

definition table_line :: "string list \<Rightarrow> string" where
  "table_line cells = ''| '' @ join '' | '' cells @ '' |''"

text \<open>
  \<^verbatim>\<open>row = [game] + stages + [""] * (cols - len(stages))\<close>, then every cell through
  \<^verbatim>\<open>replace\<close>.  A list times a number that is not positive is the empty list.
\<close>

definition raw_row :: "int \<Rightarrow> string \<Rightarrow> stage_list \<Rightarrow> string list" where
  "raw_row cols game stages = [game] @ stages @ replicate (nat (cols - int (length stages))) []"

definition row_cells :: "int \<Rightarrow> string \<Rightarrow> stage_list \<Rightarrow> string list" where
  "row_cells cols game stages = map replace_pipe (raw_row cols game stages)"

text \<open>The loop over \<^verbatim>\<open>order_games(list(section.keys()))\<close>, appending one line per game.\<close>

fun render_rows :: "int \<Rightarrow> game_section \<Rightarrow> string list \<Rightarrow> string list \<Rightarrow> error + string list" where
  "render_rows cols section [] lines = Inr lines"
| "render_rows cols section (game # games) lines =
     (case getitem section game of
        Inl e \<Rightarrow> Inl e
      | Inr stages \<Rightarrow>
          render_rows cols section games (lines @ [table_line (row_cells cols game stages)]))"

definition header_cells :: "int \<Rightarrow> string list" where
  "header_cells cols = [''Game''] @ map (\<lambda>i. ''Stage '' @ str_int i) [1..cols]"

definition sep_cells :: "int \<Rightarrow> string list" where
  "sep_cells cols = replicate (nat (cols + 1)) ''---''"

text \<open>The list \<^verbatim>\<open>lines\<close> of \<^verbatim>\<open>render_table_for_dan\<close> as it is when the function joins it.\<close>

definition dan_lines :: "string \<Rightarrow> game_section \<Rightarrow> error + string list" where
  "dan_lines dan_name section =
     (let cols = max_stage_len section;
          header = header_cells cols;
          sep = sep_cells cols;
          lines = [''### '' @ dan_name @ newline, table_line header, table_line sep]
      in case render_rows cols section (order_games (map fst section)) lines of
           Inl e \<Rightarrow> Inl e
         | Inr lines \<Rightarrow> Inr (lines @ [[]]))"

definition render_table_for_dan :: "string \<Rightarrow> game_section \<Rightarrow> error + string" where
  "render_table_for_dan dan_name section =
     (if section = [] then Inr []
      else case dan_lines dan_name section of
             Inl e \<Rightarrow> Inl e
           | Inr lines \<Rightarrow> Inr (join newline lines))"

subsection \<open>Document renderer\<close>

text \<open>
  \<^verbatim>\<open>known = [d for d in DAN_ORDER if d in data]\<close> and
  \<^verbatim>\<open>extras = sorted([d for d in data.keys() if d not in DAN_ORDER])\<close>; the loop runs over
  \<^verbatim>\<open>known + extras\<close>.
\<close>

definition known_dans :: "rank_section \<Rightarrow> string list" where
  "known_dans data = filter (\<lambda>d. d \<in> set (map fst data)) DAN_ORDER"

definition extra_dans :: "rank_section \<Rightarrow> string list" where
  "extra_dans data = sort (filter (\<lambda>d. d \<notin> set DAN_ORDER) (map fst data))"

fun render_dans :: "rank_section \<Rightarrow> string list \<Rightarrow> string list \<Rightarrow> error + string list" where
  "render_dans data [] out = Inr out"
| "render_dans data (dan_name # dans) out =
     (case getitem data dan_name of
        Inl e \<Rightarrow> Inl e
      | Inr section \<Rightarrow>
          (case render_table_for_dan dan_name section of
             Inl e \<Rightarrow> Inl e
           | Inr table \<Rightarrow> render_dans data dans (out @ [table])))"

fun render_datasets :: "(string \<times> rank_section) list \<Rightarrow> string list \<Rightarrow> error + string list" where
  "render_datasets [] out = Inr out"
| "render_datasets ((title, data) # datasets) out =
     (case render_dans data (known_dans data @ extra_dans data) (out @ [''## '' @ title @ newline]) of
        Inl e \<Rightarrow> Inl e
      | Inr out' \<Rightarrow> render_datasets datasets out')"

definition render_markdown :: "(string \<times> rank_section) list \<Rightarrow> error + string" where
  "render_markdown datasets =
     (case render_datasets datasets [''# Beatmania IIDX Dan Courses'' @ newline] of
        Inl e \<Rightarrow> Inl e
      | Inr out \<Rightarrow> Inr (join newline out))"

subsection \<open>Entry point\<close>

text \<open>
  What \<^verbatim>\<open>main\<close> acts on: the files it can write and the standard output.  The module's
  globals are a map from names to values; only the two datasets are ever read from it.
\<close>

record world =
  files :: "string \<rightharpoonup> string"
  stdout :: "string list"

type_synonym globals = "string \<rightharpoonup> rank_section"

definition preamble :: string where
  "preamble = ''python 2d dictionary of all AC dan courses from 7th dan - kaiden feel free to add PR with new stuff or kyu courses I am just lazy '' @ newline"

definition missing_names :: "globals \<Rightarrow> string list" where
  "missing_names globs = filter (\<lambda>name. globs name = None) [''dan_courses_sp'', ''dan_courses_dp'']"

definition missing_message :: "string list \<Rightarrow> string" where
  "missing_message missing =
     ''Missing dictionaries: '' @ join '', '' missing @ newline
       @ ''Paste your `dan_courses_sp` and `dan_courses_dp` above, ''
       @ ''or import them before running this script.''"

definition getglobal :: "globals \<Rightarrow> string \<Rightarrow> error + rank_section" where
  "getglobal globs name = (case globs name of None \<Rightarrow> Inl (KeyError name) | Some v \<Rightarrow> Inr v)"

definition main :: "globals \<Rightarrow> world \<Rightarrow> (error + unit) \<times> world" where
  "main globs w =
     (let missing = missing_names globs in
      if missing \<noteq> [] then (Inl (SystemExit (missing_message missing)), w)
      else case getglobal globs ''dan_courses_sp'' of
        Inl e \<Rightarrow> (Inl e, w)
      | Inr sp \<Rightarrow>
         (case getglobal globs ''dan_courses_dp'' of
            Inl e \<Rightarrow> (Inl e, w)
          | Inr dp \<Rightarrow>
             (case render_markdown [(''Singles Play'', sp), (''Doubles Play'', dp)] of
                Inl e \<Rightarrow> (Inl e, w)
              | Inr md \<Rightarrow>
                 (Inr (),
                  w\<lparr>files := (files w)(''README.md'' \<mapsto> preamble @ md),
                    stdout := stdout w @ [''Wrote README.md'']\<rparr>))))"

text \<open>
  Loading the module: \<^verbatim>\<open>from courses import dan_courses_sp, dan_courses_dp\<close> binds each
  name to the attribute of the module \<^verbatim>\<open>courses\<close>, and raises \<^verbatim>\<open>ImportError\<close> at the
  first name that \<^verbatim>\<open>courses\<close> does not define.  The namespace of \<^verbatim>\<open>courses\<close> is a
  parameter.  The statements after the import only add names.  Run as a script, the module
  then calls \<^verbatim>\<open>main()\<close>.
\<close>

fun import_from :: "globals \<Rightarrow> string list \<Rightarrow> globals \<Rightarrow> error + globals" where
  "import_from courses [] globs = Inr globs"
| "import_from courses (name # names) globs =
     (case courses name of
        None \<Rightarrow> Inl (ImportError name)
      | Some v \<Rightarrow> import_from courses names (globs(name \<mapsto> v)))"

definition load_module :: "globals \<Rightarrow> error + globals" where
  "load_module courses = import_from courses [''dan_courses_sp'', ''dan_courses_dp''] Map.empty"

definition run_script :: "globals \<Rightarrow> world \<Rightarrow> (error + unit) \<times> world" where
  "run_script courses w =
     (case load_module courses of
        Inl e \<Rightarrow> (Inl e, w)
      | Inr globs \<Rightarrow> main globs w)"

subsection \<open>Reading a table line\<close>

text \<open>
  How a reader of the Markdown takes a table line apart: a pipe that does not stand right
  after a backslash is a column delimiter, and the pieces between the delimiters are
  returned in order.  The flag says whether the previous character was a backslash.
\<close>

fun split_pipes :: "bool \<Rightarrow> string \<Rightarrow> string \<Rightarrow> string list" where
  "split_pipes esc acc [] = [acc]"
| "split_pipes esc acc (c # cs) =
     (if c = CHR ''|'' \<and> \<not> esc then acc # split_pipes False [] cs
      else split_pipes (c = backslash) (acc @ [c]) cs)"

text \<open>The cells of a line: what stands between its first and its last delimiter.\<close>

definition cells_of_line :: "string \<Rightarrow> string list" where
  "cells_of_line line = butlast (tl (split_pipes False [] line))"

section \<open>Row sorter: properties\<close>

lemma index_of_names_notin:
  "k \<notin> set names \<Longrightarrow> index_of_names n names m k = m k"
  unfolding index_of_names_def
  by (induction names arbitrary: n m) auto

lemma index_of_names_nth:
  "distinct names \<Longrightarrow> a < length names \<Longrightarrow>
     index_of_names n names m (names ! a) = Some (int (n + a))"
proof (induction names arbitrary: n m a)
  case Nil
  then show ?case by simp
next
  case (Cons x xs)
  have step: "index_of_names n (x # xs) m = index_of_names (Suc n) xs (m(x \<mapsto> int n))"
    by (simp add: index_of_names_def)
  show ?case
  proof (cases a)
    case 0
    with Cons.prems show ?thesis
      by (simp add: step index_of_names_notin)
  next
    case (Suc b)
    with Cons.prems Cons.IH [of b "Suc n" "m(x \<mapsto> int n)"] show ?thesis
      by (simp add: step del: fun_upd_apply)
  qed
qed

lemma distinct_GAME_ORDER: "distinct GAME_ORDER"
  by (simp add: GAME_ORDER_def)

lemma length_GAME_ORDER: "length GAME_ORDER = 27"
  by (simp add: GAME_ORDER_def)

lemma game_key_known:
  "a < length GAME_ORDER \<Longrightarrow> game_key (GAME_ORDER ! a) = (int a, GAME_ORDER ! a)"
  using index_of_names_nth [OF distinct_GAME_ORDER, of a 0 Map.empty]
  by (simp add: game_key_def game_index_def)

lemma game_key_unknown:
  "k \<notin> set GAME_ORDER \<Longrightarrow> game_key k = (10000, k)"
  by (simp add: game_key_def game_index_def index_of_names_notin)

lemma sorted_game_keys: "sorted (map game_key (order_games keys))"
  by (simp add: order_games_def)

lemma game_key_mono:
  assumes "i < j" "j < length (order_games keys)"
  shows "game_key (order_games keys ! i) \<le> game_key (order_games keys ! j)"
proof -
  have "map game_key (order_games keys) ! i \<le> map game_key (order_games keys) ! j"
    using sorted_game_keys [of keys] assms
    by (intro sorted_nth_mono) simp_all
  with assms show ?thesis by simp
qed

text \<open>
  C1.  Take two places \<open>i < j\<close> of the row sorter's output.  (a) If both names stand in
  \<open>GAME_ORDER\<close>, at the places \<open>a\<close> and \<open>b\<close> of the table, then \<open>a \<le> b\<close>: names of the
  table keep the table's order.  (b) If the later name stands in the table, so does the
  earlier one: no name absent from the table comes before one of the table.  (c) If
  neither stands in the table, the earlier name is at most the later one in the
  lexicographic order of strings.
\<close>

theorem order_games_chronology:
  assumes "i < j" and "j < length (order_games keys)"
  shows "(\<forall>a b. a < length GAME_ORDER \<and> b < length GAME_ORDER \<and>
            GAME_ORDER ! a = order_games keys ! i \<and> GAME_ORDER ! b = order_games keys ! j
            \<longrightarrow> a \<le> b)
       \<and> (order_games keys ! j \<in> set GAME_ORDER \<longrightarrow> order_games keys ! i \<in> set GAME_ORDER)
       \<and> (order_games keys ! i \<notin> set GAME_ORDER \<and> order_games keys ! j \<notin> set GAME_ORDER
            \<longrightarrow> order_games keys ! i \<le> order_games keys ! j)"
proof -
  let ?x = "order_games keys ! i" and ?y = "order_games keys ! j"
  have le: "game_key ?x \<le> game_key ?y"
    using assms by (rule game_key_mono)
  have a: "a \<le> b"
    if "a < length GAME_ORDER" "b < length GAME_ORDER" "GAME_ORDER ! a = ?x" "GAME_ORDER ! b = ?y"
    for a b
  proof -
    have "game_key ?x = (int a, ?x)" "game_key ?y = (int b, ?y)"
      using that game_key_known [of a] game_key_known [of b] by simp_all
    with le show ?thesis by (auto simp: less_eq_prod_def)
  qed
  have b: "?x \<in> set GAME_ORDER" if y: "?y \<in> set GAME_ORDER"
  proof (rule ccontr)
    assume x: "?x \<notin> set GAME_ORDER"
    from y obtain b where b: "b < length GAME_ORDER" "GAME_ORDER ! b = ?y"
      by (auto simp: in_set_conv_nth)
    have "game_key ?x = (10000, ?x)" "game_key ?y = (int b, ?y)"
      using x b game_key_unknown [of ?x] game_key_known [of b] by simp_all
    with le b(1) show False by (auto simp: less_eq_prod_def length_GAME_ORDER)
  qed
  have c: "?x \<le> ?y" if "?x \<notin> set GAME_ORDER" "?y \<notin> set GAME_ORDER"
  proof -
    have "game_key ?x = (10000, ?x)" "game_key ?y = (10000, ?y)"
      using that by (simp_all add: game_key_unknown)
    with le show ?thesis by (auto simp: less_eq_prod_def)
  qed
  from a b c show ?thesis by blast
qed

theorem order_games_chronology_witness:
  "order_games [''zzz'', ''8th style'', ''Aaa'', ''10th style'']
     = [''8th style'', ''10th style'', ''Aaa'', ''zzz'']
   \<and> (1::nat) \<le> 3
   \<and> order_games [''zzz'', ''8th style'', ''Aaa'', ''10th style''] ! 0 \<in> set GAME_ORDER
   \<and> order_games [''zzz'', ''8th style'', ''Aaa'', ''10th style''] ! 2
       \<le> order_games [''zzz'', ''8th style'', ''Aaa'', ''10th style''] ! 3"
proof -
  let ?K = "[''zzz'', ''8th style'', ''Aaa'', ''10th style'']"
  have eq: "order_games ?K = [''8th style'', ''10th style'', ''Aaa'', ''zzz'']"
    by code_simp
  have len: "length (order_games ?K) = 4"
    by (simp add: eq)
  have t1: "GAME_ORDER ! 1 = order_games ?K ! 0" "GAME_ORDER ! 3 = order_games ?K ! 1"
    by (simp_all add: eq GAME_ORDER_def)
  have k2: "order_games ?K ! 2 \<notin> set GAME_ORDER" "order_games ?K ! 3 \<notin> set GAME_ORDER"
    by (simp_all add: eq GAME_ORDER_def)
  have k1: "order_games ?K ! 1 \<in> set GAME_ORDER"
    by (simp add: eq GAME_ORDER_def)
  have a: "(1::nat) \<le> 3"
    using order_games_chronology [of 0 1 ?K] t1 by (simp add: len length_GAME_ORDER)
  have b: "order_games ?K ! 0 \<in> set GAME_ORDER"
    using order_games_chronology [of 0 1 ?K] k1 by (simp add: len)
  have c: "order_games ?K ! 2 \<le> order_games ?K ! 3"
    using order_games_chronology [of 2 3 ?K] k2 by (simp add: len)
  from eq a b c show ?thesis by blast
qed


text \<open>
  C8.  The row sorter returns a list of the length of its input that is a permutation of
  it: every name occurs in the output as many times as in the input, so none is dropped
  and none is duplicated.
\<close>

theorem order_games_permutation:
  "length (order_games keys) = length keys \<and> mset (order_games keys) = mset keys"
  by (simp add: order_games_def)

section \<open>Rank table renderer: auxiliary facts\<close>

lemma getitem_key:
  "k \<in> fst ` set d \<Longrightarrow> getitem d k = Inr (the (map_of d k)) \<and> (k, the (map_of d k)) \<in> set d"
  by (cases "map_of d k") (auto simp: getitem_def map_of_eq_None_iff dest: map_of_SomeD)

lemma getitem_distinct:
  "distinct (map fst d) \<Longrightarrow> (k, v) \<in> set d \<Longrightarrow> the (map_of d k) = v"
  by simp

lemma Max_insert_max:
  fixes S :: "int set"
  assumes "finite S"
  shows "Max (insert (max m a) S) = Max (insert m (insert a S))"
proof (cases "S = {}")
  case True
  then show ?thesis by (simp add: max.commute)
next
  case False
  with assms show ?thesis by (simp add: max.assoc)
qed

lemma fold_max_len:
  "fold (\<lambda>stages m. max m (int (length stages))) xs m0
     = Max (insert m0 ((\<lambda>stages. int (length stages)) ` set xs))"
proof (induction xs arbitrary: m0)
  case Nil
  show ?case by simp
next
  case (Cons x xs)
  show ?case
    using Cons.IH [of "max m0 (int (length x))"]
    by (simp add: Max_insert_max del: Max_insert)
qed

lemma max_stage_len_Max:
  "max_stage_len section = Max (insert 0 ((\<lambda>(game, stages). int (length stages)) ` set section))"
proof -
  have "(\<lambda>stages. int (length stages)) ` set (map snd section)
      = (\<lambda>(game, stages). int (length stages)) ` set section"
    by (auto simp: image_iff) force
  then show ?thesis by (simp add: max_stage_len_def fold_max_len)
qed

lemma max_stage_len_ge: "(game, stages) \<in> set section \<Longrightarrow> int (length stages) \<le> max_stage_len section"
  unfolding max_stage_len_Max by (rule Max_ge_iff [THEN iffD2]) auto+

lemma max_stage_len_nonneg: "0 \<le> max_stage_len section"
  unfolding max_stage_len_Max by (rule Max_ge) auto

lemma render_rows_eq:
  "set games \<subseteq> fst ` set section \<Longrightarrow>
     render_rows cols section games lines
       = Inr (lines @ map (\<lambda>g. table_line (row_cells cols g (the (map_of section g)))) games)"
proof (induction games arbitrary: lines)
  case Nil
  show ?case by simp
next
  case (Cons g games)
  from Cons.prems have "getitem section g = Inr (the (map_of section g))"
    by (simp add: getitem_key)
  with Cons show ?case by simp
qed

lemma set_order_games: "set (order_games keys) = set keys"
  by (simp add: order_games_def)

lemma length_order_games: "length (order_games keys) = length keys"
  by (simp add: order_games_def)

lemma dan_lines_eq:
  "dan_lines dan_name section
     = Inr ([''### '' @ dan_name @ newline,
             table_line (header_cells (max_stage_len section)),
             table_line (sep_cells (max_stage_len section))]
            @ map (\<lambda>g. table_line (row_cells (max_stage_len section) g (the (map_of section g))))
                (order_games (map fst section))
            @ [[]])"
proof -
  have "set (order_games (map fst section)) \<subseteq> fst ` set section"
    by (simp add: set_order_games)
  then show ?thesis
    by (simp add: dan_lines_def Let_def render_rows_eq)
qed

lemma length_header_cells: "0 \<le> cols \<Longrightarrow> length (header_cells cols) = nat (cols + 1)"
  by (simp add: header_cells_def nat_add_distrib)

lemma length_sep_cells: "length (sep_cells cols) = nat (cols + 1)"
  by (simp add: sep_cells_def)

lemma length_row_cells:
  "int (length stages) \<le> cols \<Longrightarrow> length (row_cells cols game stages) = nat (cols + 1)"
  by (simp add: row_cells_def raw_row_def)

lemma backslash_not_pipe: "backslash \<noteq> CHR ''|''"
  by (simp add: backslash_def)

lemma split_pipe_free:
  "CHR ''|'' \<notin> set xs \<Longrightarrow> \<exists>e. split_pipes esc acc (xs @ rest) = split_pipes e (acc @ xs) rest"
proof (induction xs arbitrary: esc acc)
  case Nil
  show ?case by auto
next
  case (Cons x xs)
  from Cons.prems have "x \<noteq> CHR ''|''" "CHR ''|'' \<notin> set xs" by auto
  with Cons.IH [of "x = backslash" "acc @ [x]"] show ?case by simp
qed

lemma split_replace_pipe:
  "\<exists>e. split_pipes esc acc (replace_pipe c @ rest) = split_pipes e (acc @ replace_pipe c) rest"
proof (induction c arbitrary: esc acc)
  case Nil
  show ?case by (auto simp: replace_pipe_def)
next
  case (Cons x xs)
  show ?case
  proof (cases "x = CHR ''|''")
    case True
    then have "replace_pipe (x # xs) = backslash # CHR ''|'' # replace_pipe xs"
      by (simp add: replace_pipe_def)
    with Cons.IH [of False "acc @ [backslash, CHR ''|'']"] show ?thesis
      using backslash_not_pipe by (simp add: eq_commute [of "CHR ''|''" backslash])
  next
    case False
    then have "replace_pipe (x # xs) = x # replace_pipe xs"
      by (simp add: replace_pipe_def)
    with False Cons.IH [of "x = backslash" "acc @ [x]"] show ?thesis
      by simp
  qed
qed

lemma split_cell:
  assumes ok: "\<And>esc acc rest. \<exists>e. split_pipes esc acc (c @ rest) = split_pipes e (acc @ c) rest"
  shows "split_pipes False acc ('' '' @ c @ '' |'' @ rest)
           = (acc @ '' '' @ c @ '' '') # split_pipes False [] rest"
proof -
  from ok [of False "acc @ '' ''" "'' |'' @ rest"]
  obtain e where "split_pipes False (acc @ '' '') (c @ '' |'' @ rest)
                    = split_pipes e (acc @ '' '' @ c) ('' |'' @ rest)"
    by auto
  then show ?thesis by (simp add: backslash_def)
qed

lemma split_cells:
  assumes "\<And>c esc acc rest. c \<in> set cs \<Longrightarrow>
             \<exists>e. split_pipes esc acc (c @ rest) = split_pipes e (acc @ c) rest"
  shows "split_pipes False [] (concat (map (\<lambda>c. '' '' @ c @ '' |'') cs))
           = map (\<lambda>c. '' '' @ c @ '' '') cs @ [[]]"
  using assms
proof (induction cs)
  case Nil
  show ?case by simp
next
  case (Cons c cs)
  have "split_pipes False [] ('' '' @ c @ '' |'' @ concat (map (\<lambda>c. '' '' @ c @ '' |'') cs))
          = ([] @ '' '' @ c @ '' '') # split_pipes False [] (concat (map (\<lambda>c. '' '' @ c @ '' |'') cs))"
    by (rule split_cell) (rule Cons.prems, simp)
  moreover have "split_pipes False [] (concat (map (\<lambda>c. '' '' @ c @ '' |'') cs))
          = map (\<lambda>c. '' '' @ c @ '' '') cs @ [[]]"
    by (rule Cons.IH) (rule Cons.prems, simp)
  ultimately show ?case by simp
qed

lemma join_cells:
  "cs \<noteq> [] \<Longrightarrow> '' '' @ join '' | '' cs @ '' |'' = concat (map (\<lambda>c. '' '' @ c @ '' |'') cs)"
  by (induction "'' | ''" cs rule: join.induct) simp_all

lemma table_line_concat:
  "cs \<noteq> [] \<Longrightarrow> table_line cs = CHR ''|'' # concat (map (\<lambda>c. '' '' @ c @ '' |'') cs)"
  using join_cells [of cs] by (simp add: table_line_def)

lemma cells_of_table_line:
  assumes "cs \<noteq> []"
    and "\<And>c esc acc rest. c \<in> set cs \<Longrightarrow>
             \<exists>e. split_pipes esc acc (c @ rest) = split_pipes e (acc @ c) rest"
  shows "cells_of_line (table_line cs) = map (\<lambda>c. '' '' @ c @ '' '') cs"
proof -
  have "split_pipes False [] (table_line cs) = [] # map (\<lambda>c. '' '' @ c @ '' '') cs @ [[]]"
    using assms(1) split_cells [of cs, OF assms(2)]
    by (simp add: table_line_concat)
  then show ?thesis by (simp add: cells_of_line_def)
qed

lemma digit_char_not_pipe: "d < 10 \<Longrightarrow> digit_char d \<noteq> CHR ''|''"
proof -
  assume "d < 10"
  then have "digit_char d \<in> set ''0123456789''"
    unfolding digit_char_def by (intro nth_mem) simp
  then show ?thesis by auto
qed

lemma str_nat_no_pipe: "CHR ''|'' \<notin> set (str_nat n)"
proof (induction n rule: str_nat.induct)
  case (1 n)
  show ?case
  proof (cases "n < 10")
    case True
    then show ?thesis
      using digit_char_not_pipe [of n] by (subst str_nat.simps) auto
  next
    case False
    have "n mod 10 < 10" by simp
    with False "1.IH" show ?thesis
      using digit_char_not_pipe [of "n mod 10"] by (subst str_nat.simps) auto
  qed
qed

lemma str_int_no_pipe: "CHR ''|'' \<notin> set (str_int i)"
  by (simp add: str_int_def str_nat_no_pipe)

lemma header_cells_no_pipe: "c \<in> set (header_cells cols) \<Longrightarrow> CHR ''|'' \<notin> set c"
  by (auto simp: header_cells_def str_int_no_pipe)

lemma sep_cells_no_pipe: "c \<in> set (sep_cells cols) \<Longrightarrow> CHR ''|'' \<notin> set c"
  by (auto simp: sep_cells_def)

lemma cells_of_header_line:
  "cells_of_line (table_line (header_cells cols)) = map (\<lambda>c. '' '' @ c @ '' '') (header_cells cols)"
proof (rule cells_of_table_line)
  show "header_cells cols \<noteq> []" by (simp add: header_cells_def)
  show "\<exists>e. split_pipes esc acc (c @ rest) = split_pipes e (acc @ c) rest"
    if "c \<in> set (header_cells cols)" for c esc acc rest
    using that by (intro split_pipe_free header_cells_no_pipe)
qed

lemma cells_of_sep_line:
  "cells_of_line (table_line (sep_cells cols)) = map (\<lambda>c. '' '' @ c @ '' '') (sep_cells cols)"
  if "0 \<le> cols"
proof (rule cells_of_table_line)
  from that show "sep_cells cols \<noteq> []" by (simp add: sep_cells_def)
  show "\<exists>e. split_pipes esc acc (c @ rest) = split_pipes e (acc @ c) rest"
    if "c \<in> set (sep_cells cols)" for c esc acc rest
    using that by (intro split_pipe_free sep_cells_no_pipe)
qed

lemma cells_of_row_line:
  "cells_of_line (table_line (map replace_pipe row)) = map (\<lambda>c. '' '' @ replace_pipe c @ '' '') row"
  if "row \<noteq> []"
proof -
  have "cells_of_line (table_line (map replace_pipe row))
          = map (\<lambda>c. '' '' @ c @ '' '') (map replace_pipe row)"
  proof (rule cells_of_table_line)
    from that show "map replace_pipe row \<noteq> []" by simp
    show "\<exists>e. split_pipes esc acc (c @ rest) = split_pipes e (acc @ c) rest"
      if "c \<in> set (map replace_pipe row)" for c esc acc rest
      using that split_replace_pipe by auto
  qed
  then show ?thesis by (simp add: comp_def)
qed

section \<open>Rank table renderer: properties\<close>

text \<open>
  C3.  The column count \<^verbatim>\<open>cols\<close> of the rank table renderer is \<open>max_stage_len section\<close>.
  For a section that is not empty it is the greatest length of a stage list of the section;
  it is 0 for the empty section and for a section whose stage lists are all empty; and the
  header line of the table holds \<open>Game\<close> and then one column \<open>Stage i\<close> for each \<open>i\<close> from 1
  to that number.
\<close>

theorem max_stage_len_is_maximum:
  "(section \<noteq> [] \<longrightarrow>
      max_stage_len section = Max ((\<lambda>(game, stages). int (length stages)) ` set section))
   \<and> (section = [] \<longrightarrow> max_stage_len section = 0)
   \<and> ((\<forall>(game, stages) \<in> set section. stages = []) \<longrightarrow> max_stage_len section = 0)
   \<and> (\<exists>lines. dan_lines dan_name section = Inr lines
         \<and> cells_of_line (lines ! 1)
             = '' Game '' # map (\<lambda>i. '' Stage '' @ str_int i @ '' '') [1..max_stage_len section])"
proof -
  let ?L = "(\<lambda>(game, stages). int (length stages)) ` set section"
  have nonneg: "\<And>x. x \<in> ?L \<Longrightarrow> 0 \<le> x" by auto
  have a: "max_stage_len section = Max ?L" if "section \<noteq> []"
  proof -
    from that have ne: "?L \<noteq> {}" by simp
    have "0 \<le> Max ?L"
      using ne nonneg by (meson Max_in finite_imageI finite_set)
    with ne show ?thesis
      by (simp add: max_stage_len_Max)
  qed
  have b: "max_stage_len section = 0" if "section = []"
    using that by (simp add: max_stage_len_def)
  have c: "max_stage_len section = 0" if "\<forall>(game, stages) \<in> set section. stages = []"
  proof -
    from that have "?L \<subseteq> {0}" by auto
    then have "insert 0 ?L = {0}" by auto
    then have "Max (insert 0 ?L) = 0" by (simp only: Max_singleton)
    then show ?thesis by (simp only: max_stage_len_Max)
  qed
  have d: "\<exists>lines. dan_lines dan_name section = Inr lines
         \<and> cells_of_line (lines ! 1)
             = '' Game '' # map (\<lambda>i. '' Stage '' @ str_int i @ '' '') [1..max_stage_len section]"
    by (simp add: dan_lines_eq cells_of_header_line) (simp add: header_cells_def comp_def)
  from a b c d show ?thesis by blast
qed

theorem max_stage_len_is_maximum_witness:
  "max_stage_len [(''7th style'', [''SONIC BOOM'']), (''8th style'', [''SOUND CROSS'', ''V''])] = 2
   \<and> max_stage_len [] = 0
   \<and> max_stage_len [(''7th style'', []), (''8th style'', [])] = 0"
proof -
  let ?ex = "[(''7th style'', [''SONIC BOOM'']), (''8th style'', [''SOUND CROSS'', ''V''])]"
  have "Max ((\<lambda>(game, stages). int (length stages)) ` set ?ex) = 2" by simp
  then have a: "max_stage_len ?ex = 2"
    using max_stage_len_is_maximum [of ?ex "''1st Dan''"] by simp
  have b: "max_stage_len [] = 0"
    using max_stage_len_is_maximum [of "[]" "''1st Dan''"] by simp
  have c: "max_stage_len [(''7th style'', []), (''8th style'', [])] = 0"
    using max_stage_len_is_maximum [of "[(''7th style'', []), (''8th style'', [])]" "''1st Dan''"]
    by simp
  from a b c show ?thesis by blast
qed

lemma order_games_nth_key:
  "i < length section \<Longrightarrow> order_games (map fst section) ! i \<in> fst ` set section"
proof -
  assume "i < length section"
  then have "order_games (map fst section) ! i \<in> set (order_games (map fst section))"
    by (intro nth_mem) (simp add: length_order_games)
  then show ?thesis by (simp add: set_order_games)
qed

lemma raw_row_nonempty: "raw_row cols game stages \<noteq> []"
  by (simp add: raw_row_def)

lemma render_table_for_dan_lines:
  "section \<noteq> [] \<Longrightarrow> dan_lines dan_name section = Inr lines \<Longrightarrow>
     render_table_for_dan dan_name section = Inr (join newline lines)"
  by (simp add: render_table_for_dan_def)

text \<open>
  C10.  For a section that is not empty, every table line of the rendered rank table (the
  header, the separator and each game row: the lines 1 to \<open>length section + 2\<close> of the
  list that the renderer joins) has exactly \<open>cols + 1\<close> cells between its delimiters,
  where \<open>cols = max_stage_len section\<close>; and for every entry of the section the padding
  count \<open>cols - len(stages)\<close> is not negative.
\<close>

theorem table_lines_cell_count:
  assumes "section \<noteq> []"
  shows "\<exists>lines. dan_lines dan_name section = Inr lines
           \<and> render_table_for_dan dan_name section = Inr (join newline lines)
           \<and> length lines = length section + 4
           \<and> (\<forall>k. 1 \<le> k \<and> k < length section + 3 \<longrightarrow>
                  length (cells_of_line (lines ! k)) = nat (max_stage_len section + 1))
           \<and> (\<forall>(game, stages) \<in> set section. 0 \<le> max_stage_len section - int (length stages))"
proof -
  let ?cols = "max_stage_len section"
  let ?row = "\<lambda>g. table_line (row_cells ?cols g (the (map_of section g)))"
  let ?games = "order_games (map fst section)"
  let ?lines = "[''### '' @ dan_name @ newline, table_line (header_cells ?cols),
                 table_line (sep_cells ?cols)] @ map ?row ?games @ [[]]"
  have eq: "dan_lines dan_name section = Inr ?lines"
    by (rule dan_lines_eq)
  have len: "length ?lines = length section + 4"
    by (simp add: length_order_games)
  have cells: "length (cells_of_line (?lines ! k)) = nat (?cols + 1)"
    if k: "1 \<le> k" "k < length section + 3" for k
  proof -
    define i where "i = k - 3"
    from k have "k = 1 \<or> k = 2 \<or> (k = 3 + i \<and> i < length section)"
      unfolding i_def by arith
    then consider "k = 1" | "k = 2" | "k = 3 + i" "i < length section"
      by blast
    then show ?thesis
    proof cases
      case 1
      then show ?thesis
        by (simp add: cells_of_header_line length_header_cells max_stage_len_nonneg)
    next
      case 2
      then show ?thesis
        by (simp add: cells_of_sep_line length_sep_cells max_stage_len_nonneg)
    next
      case 3
      let ?g = "?games ! i"
      have key: "?g \<in> fst ` set section"
        using 3(2) by (rule order_games_nth_key)
      then have "(?g, the (map_of section ?g)) \<in> set section"
        by (simp add: getitem_key)
      then have le: "int (length (the (map_of section ?g))) \<le> ?cols"
        by (rule max_stage_len_ge)
      have "?lines ! k = ?row ?g"
        using 3 by (simp add: nth_append length_order_games)
      then have "cells_of_line (?lines ! k)
            = map (\<lambda>c. '' '' @ replace_pipe c @ '' '') (raw_row ?cols ?g (the (map_of section ?g)))"
        by (simp add: row_cells_def cells_of_row_line raw_row_nonempty)
      then show ?thesis
        using le length_row_cells [OF le, of ?g] by (simp add: row_cells_def)
    qed
  qed
  have pad: "\<forall>(game, stages) \<in> set section. 0 \<le> ?cols - int (length stages)"
    using max_stage_len_ge by fastforce
  from eq assms have "render_table_for_dan dan_name section = Inr (join newline ?lines)"
    by (intro render_table_for_dan_lines)
  with eq len cells pad show ?thesis by blast
qed

lemma dan_lines_example:
  "dan_lines ''1st Dan'' [(''7th style'', [''SONIC BOOM'']), (''8th style'', [''SOUND CROSS'', ''V''])]
     = Inr [''### 1st Dan'' @ newline,
            ''| Game | Stage 1 | Stage 2 |'',
            ''| --- | --- | --- |'',
            ''| 7th style | SONIC BOOM |  |'',
            ''| 8th style | SOUND CROSS | V |'',
            []]"
  by code_simp

theorem table_lines_cell_count_witness:
  "length (cells_of_line ''| Game | Stage 1 | Stage 2 |'') = 3
   \<and> length (cells_of_line ''| --- | --- | --- |'') = 3
   \<and> length (cells_of_line ''| 7th style | SONIC BOOM |  |'') = 3
   \<and> length (cells_of_line ''| 8th style | SOUND CROSS | V |'') = 3
   \<and> (0::int) \<le> max_stage_len [(''7th style'', [''SONIC BOOM'']), (''8th style'', [''SOUND CROSS'', ''V''])]
                    - int (length [''SONIC BOOM''])"
proof -
  let ?ex = "[(''7th style'', [''SONIC BOOM'']), (''8th style'', [''SOUND CROSS'', ''V''])]"
  have ne: "?ex \<noteq> []" by simp
  have cols: "nat (max_stage_len ?ex + 1) = 3"
    by (simp add: max_stage_len_def)
  from table_lines_cell_count [OF ne, of "''1st Dan''"]
  obtain lines where lines: "dan_lines ''1st Dan'' ?ex = Inr lines"
    and cells: "\<forall>k. 1 \<le> k \<and> k < length ?ex + 3 \<longrightarrow>
                  length (cells_of_line (lines ! k)) = nat (max_stage_len ?ex + 1)"
    and pad: "\<forall>(game, stages) \<in> set ?ex. 0 \<le> max_stage_len ?ex - int (length stages)"
    by blast
  from lines have l: "lines = [''### 1st Dan'' @ newline,
            ''| Game | Stage 1 | Stage 2 |'',
            ''| --- | --- | --- |'',
            ''| 7th style | SONIC BOOM |  |'',
            ''| 8th style | SOUND CROSS | V |'',
            []]"
    by (simp only: dan_lines_example sum.inject)
  from cells [rule_format, of 1] cells [rule_format, of 2] cells [rule_format, of 3]
    cells [rule_format, of 4] pad
  show ?thesis
    unfolding l cols by simp
qed

lemma dan_lines_row:
  assumes "distinct (map fst section)" "i < length section"
    and "(order_games (map fst section) ! i, stages) \<in> set section"
  shows "\<exists>lines. dan_lines dan_name section = Inr lines
           \<and> lines ! (3 + i)
               = table_line (row_cells (max_stage_len section) (order_games (map fst section) ! i) stages)"
proof -
  let ?g = "order_games (map fst section) ! i"
  from assms(1,3) have "the (map_of section ?g) = stages"
    by (rule getitem_distinct)
  with assms(2) show ?thesis
    by (simp add: dan_lines_eq nth_append length_order_games)
qed

text \<open>
  C2.  For a section that is not empty (its keys pairwise different, as in a dictionary),
  the renderer joins a list of \<open>length section + 4\<close> lines: the heading, the header, the
  separator, one line per game key, and a final empty line.  The line of the \<open>i\<close>-th
  game of the row sorter's order is the table line of the cells: the game name, its stage
  titles in list order, and then exactly \<open>cols - len(stages)\<close> empty cells, each cell with
  its pipes escaped.  For the section of the two games \<open>7th style\<close> and \<open>8th style\<close> under
  the rank \<open>1st Dan\<close> the table has the columns \<open>Game\<close>, \<open>Stage 1\<close>, \<open>Stage 2\<close> and two
  rows, and the cell \<open>Stage 2\<close> of the row \<open>7th style\<close> is empty.
\<close>

theorem render_table_rows:
  "(section \<noteq> [] \<and> distinct (map fst section) \<longrightarrow>
      (\<exists>lines. dan_lines dan_name section = Inr lines
         \<and> render_table_for_dan dan_name section = Inr (join newline lines)
         \<and> length lines = length section + 4
         \<and> (\<forall>i stages. i < length section
               \<and> (order_games (map fst section) ! i, stages) \<in> set section \<longrightarrow>
               lines ! (3 + i)
                 = table_line (map replace_pipe
                     ([order_games (map fst section) ! i] @ stages
                        @ replicate (nat (max_stage_len section - int (length stages))) [])))))
   \<and> render_table_for_dan ''1st Dan''
         [(''7th style'', [''SONIC BOOM'']), (''8th style'', [''SOUND CROSS'', ''V''])]
       = Inr (''### 1st Dan'' @ newline @ newline
              @ ''| Game | Stage 1 | Stage 2 |'' @ newline
              @ ''| --- | --- | --- |'' @ newline
              @ ''| 7th style | SONIC BOOM |  |'' @ newline
              @ ''| 8th style | SOUND CROSS | V |'' @ newline)
   \<and> cells_of_line ''| 7th style | SONIC BOOM |  |'' = ['' 7th style '', '' SONIC BOOM '', ''  '']"
proof -
  have general: "\<exists>lines. dan_lines dan_name section = Inr lines
         \<and> render_table_for_dan dan_name section = Inr (join newline lines)
         \<and> length lines = length section + 4
         \<and> (\<forall>i stages. i < length section
               \<and> (order_games (map fst section) ! i, stages) \<in> set section \<longrightarrow>
               lines ! (3 + i)
                 = table_line (map replace_pipe
                     ([order_games (map fst section) ! i] @ stages
                        @ replicate (nat (max_stage_len section - int (length stages))) [])))"
    if ne: "section \<noteq> []" and dist: "distinct (map fst section)"
  proof -
    obtain lines where lines: "dan_lines dan_name section = Inr lines"
      by (simp add: dan_lines_eq)
    have len: "length lines = length section + 4"
      using lines by (auto simp: dan_lines_eq length_order_games)
    have row: "lines ! (3 + i)
                 = table_line (map replace_pipe
                     ([order_games (map fst section) ! i] @ stages
                        @ replicate (nat (max_stage_len section - int (length stages))) []))"
      if "i < length section" "(order_games (map fst section) ! i, stages) \<in> set section"
      for i stages
      using dan_lines_row [OF dist that, of dan_name] lines
      by (simp add: row_cells_def raw_row_def)
    from ne lines have "render_table_for_dan dan_name section = Inr (join newline lines)"
      by (rule render_table_for_dan_lines)
    with lines len row show ?thesis by blast
  qed
  have example: "render_table_for_dan ''1st Dan''
         [(''7th style'', [''SONIC BOOM'']), (''8th style'', [''SOUND CROSS'', ''V''])]
       = Inr (''### 1st Dan'' @ newline @ newline
              @ ''| Game | Stage 1 | Stage 2 |'' @ newline
              @ ''| --- | --- | --- |'' @ newline
              @ ''| 7th style | SONIC BOOM |  |'' @ newline
              @ ''| 8th style | SOUND CROSS | V |'' @ newline)"
    by (simp add: render_table_for_dan_def dan_lines_example)
  have cell: "cells_of_line ''| 7th style | SONIC BOOM |  |'' = ['' 7th style '', '' SONIC BOOM '', ''  '']"
    by (simp add: cells_of_line_def backslash_def)
  from general example cell show ?thesis by blast
qed

theorem render_table_rows_witness:
  "(\<exists>lines. dan_lines ''1st Dan''
               [(''8th style'', [''SOUND CROSS'', ''V'']), (''7th style'', [''SONIC|BOOM''])] = Inr lines
      \<and> length lines = 6
      \<and> lines ! 3 = table_line [''7th style'', ''SONIC'' @ [backslash] @ ''|BOOM'', []]
      \<and> lines ! 4 = table_line [''8th style'', ''SOUND CROSS'', ''V''])"
proof -
  let ?ex = "[(''8th style'', [''SOUND CROSS'', ''V'']), (''7th style'', [''SONIC|BOOM''])]"
  have og: "order_games (map fst ?ex) = [''7th style'', ''8th style'']"
    by code_simp
  have cols: "max_stage_len ?ex = 2"
    by (simp add: max_stage_len_def)
  have hyp: "?ex \<noteq> [] \<and> distinct (map fst ?ex)" by simp
  from render_table_rows [of ?ex "''1st Dan''"] hyp
  obtain lines where lines: "dan_lines ''1st Dan'' ?ex = Inr lines"
    and len: "length lines = length ?ex + 4"
    and rows: "\<forall>i stages. i < length ?ex
               \<and> (order_games (map fst ?ex) ! i, stages) \<in> set ?ex \<longrightarrow>
               lines ! (3 + i)
                 = table_line (map replace_pipe
                     ([order_games (map fst ?ex) ! i] @ stages
                        @ replicate (nat (max_stage_len ?ex - int (length stages))) []))"
    by blast
  from rows [rule_format, of 0 "[''SONIC|BOOM'']"]
  have r0: "lines ! 3 = table_line [''7th style'', ''SONIC'' @ [backslash] @ ''|BOOM'', []]"
    unfolding og cols by (simp add: replace_pipe_def)
  from rows [rule_format, of 1 "[''SOUND CROSS'', ''V'']"]
  have r1: "lines ! 4 = table_line [''8th style'', ''SOUND CROSS'', ''V'']"
    unfolding og cols by (simp add: replace_pipe_def)
  from lines len r0 r1 show ?thesis by simp
qed

end
